theory Spec2Isabelle
  imports Main
begin

section \<open>Data model of \<^verbatim>\<open>src/dropcomplete.ts\<close>\<close>

text \<open>
  A suggestion item is a JavaScript object with an optional label and an optional group.
  The widget compares items with \<^verbatim>\<open>===\<close>, that is by reference. The field \<open>oid\<close> is the
  identity of the object: two objects with the same label and group are two values with
  different \<open>oid\<close>, so that HOL equality on the record is reference equality on objects.
  An absent property (\<^verbatim>\<open>undefined\<close>) is \<open>None\<close>.
\<close>

record DropcompleteItem =
  oid :: nat
  label :: "string option"
  group :: "string option"

text \<open>
  A \<^verbatim>\<open>div\<close> built by the widget: its text, its class list, and the item captured by the
  click listener that \<^verbatim>\<open>update\<close> adds to it (\<open>None\<close> when it has no click listener).
\<close>

record element =
  textContent :: string
  classList :: "string list"
  click :: "DropcompleteItem option"

text \<open>
  The fields of the class. \<open>input_value\<close> and \<open>input_selectionStart\<close> are what the widget
  reads from the bound input element, \<open>container_childNodes\<close> are the children of
  \<^verbatim>\<open>this.container\<close> and \<open>container_attached\<close> says that \<^verbatim>\<open>this.container.parentNode\<close> is
  not null. \<open>selected\<close> is \<open>None\<close> for \<^verbatim>\<open>undefined\<close>. The counter is a JavaScript number
  that is only ever incremented by one from zero; it is a natural number here (the
  doubles stay exact below \<open>2^53\<close> increments). The inline style of the container
  and its scroll offset, which \<^verbatim>\<open>calculatePosition\<close> and \<^verbatim>\<open>updateScroll\<close> compute from the
  layout geometry of the host document, are not part of the state modelled.
\<close>

record Dropcomplete =
  input_value :: string
  input_selectionStart :: "nat option"
  minLen :: int
  emptyMsg :: "string option"
  showOnFocus :: "bool option"
  preventSubmit :: bool
  container_childNodes :: "element list"
  container_attached :: bool
  items :: "DropcompleteItem list"
  inputValue :: string
  selected :: "DropcompleteItem option"
  keypressCounter :: nat

text \<open>
  What a handler asks of the caller's callbacks: a call of \<^verbatim>\<open>fetch\<close> with the text, the
  counter value saved in the closure passed as \<^verbatim>\<open>update\<close>, the focus flag and the cursor
  position; or a call of \<^verbatim>\<open>onSelect\<close> with an item.
\<close>

datatype call =
  Fetch string nat bool nat
| OnSelect DropcompleteItem

text \<open>Reading \<^verbatim>\<open>xs[i]\<close> in JavaScript: \<^verbatim>\<open>undefined\<close> when the index is out of range.\<close>

definition item_at :: "'a list \<Rightarrow> int \<Rightarrow> 'a option" where
  "item_at xs i = (if 0 \<le> i \<and> i < int (length xs) then Some (xs ! nat i) else None)"

section \<open>Attaching, detaching and clearing\<close>

definition detach :: "Dropcomplete \<Rightarrow> Dropcomplete" where
  "detach s = (if container_attached s then s\<lparr>container_attached := False\<rparr> else s)"

definition attach :: "Dropcomplete \<Rightarrow> Dropcomplete" where
  "attach s = (if \<not> container_attached s then s\<lparr>container_attached := True\<rparr> else s)"

definition containerDisplayed :: "Dropcomplete \<Rightarrow> bool" where
  "containerDisplayed s = container_attached s"

definition clear :: "Dropcomplete \<Rightarrow> Dropcomplete" where
  "clear s =
     detach (s\<lparr>keypressCounter := keypressCounter s + 1,
               items := [], inputValue := [], selected := None\<rparr>)"

section \<open>Selection\<close>

text \<open>
  The loop of \<^verbatim>\<open>selectPrev\<close>, \<^verbatim>\<open>for (let i = items.length - 1; i > 0; i--)\<close>, with the
  value of \<open>i\<close> as the last argument; it returns the new value of \<^verbatim>\<open>this.selected\<close>.
\<close>

fun selectPrev_loop ::
  "DropcompleteItem list \<Rightarrow> DropcompleteItem option \<Rightarrow> nat \<Rightarrow> DropcompleteItem option" where
  "selectPrev_loop its sel 0 = sel"
| "selectPrev_loop its sel (Suc j) =
     (if sel = item_at its (int (Suc j)) \<or> Suc j = 1
      then item_at its (int (Suc j) - 1)
      else selectPrev_loop its sel j)"

definition selectPrev :: "Dropcomplete \<Rightarrow> Dropcomplete" where
  "selectPrev s =
     (if length (items s) < 1 then s\<lparr>selected := None\<rparr>
      else if selected s = item_at (items s) 0
      then s\<lparr>selected := item_at (items s) (int (length (items s)) - 1)\<rparr>
      else s\<lparr>selected := selectPrev_loop (items s) (selected s) (length (items s) - 1)\<rparr>)"

text \<open>
  The loop of \<^verbatim>\<open>selectNext\<close>, \<^verbatim>\<open>for (let i = 0; i < items.length - 1; i++)\<close>, counting up.
\<close>

function selectNext_loop ::
  "DropcompleteItem list \<Rightarrow> DropcompleteItem option \<Rightarrow> nat \<Rightarrow> DropcompleteItem option" where
  "selectNext_loop its sel i =
     (if int i < int (length its) - 1
      then (if sel = item_at its (int i) then item_at its (int i + 1)
            else selectNext_loop its sel (i + 1))
      else sel)"
  by pat_completeness auto
termination
  by (relation "measure (\<lambda>(its, sel, i). length its - i)") auto

declare selectNext_loop.simps [simp del]

text \<open>
  \<^verbatim>\<open>selectNext\<close> has no \<^verbatim>\<open>else\<close> after its first test: on an empty list it goes on to the
  second test with \<^verbatim>\<open>selected\<close> undefined and reads \<^verbatim>\<open>items[0]\<close> out of range.
\<close>

definition selectNext :: "Dropcomplete \<Rightarrow> Dropcomplete" where
  "selectNext s =
     (let s1 = (if length (items s) < 1 then s\<lparr>selected := None\<rparr> else s) in
      if selected s1 = None
         \<or> selected s1 = item_at (items s1) (int (length (items s1)) - 1)
      then s1\<lparr>selected := item_at (items s1) 0\<rparr>
      else s1\<lparr>selected := selectNext_loop (items s1) (selected s1) 0\<rparr>)"

section \<open>Rendering\<close>

text \<open>The default \<^verbatim>\<open>render\<close> and \<^verbatim>\<open>renderGroup\<close>; their return type allows \<^verbatim>\<open>undefined\<close>.\<close>

definition render :: "DropcompleteItem \<Rightarrow> element option" where
  "render item =
     Some \<lparr>textContent = (case label item of None \<Rightarrow> [] | Some l \<Rightarrow> if l \<noteq> [] then l else []),
           classList = [], click = None\<rparr>"

definition renderGroup :: "string \<Rightarrow> element option" where
  "renderGroup groupName = Some \<lparr>textContent = groupName, classList = [], click = None\<rparr>"

text \<open>
  What one iteration of the loop of \<^verbatim>\<open>update\<close> appends for the item itself: nothing when
  \<^verbatim>\<open>render\<close> returns \<^verbatim>\<open>undefined\<close>, else the element with its click listener and, for the
  selected item, the class \<^verbatim>\<open>selected\<close>.
\<close>

definition update_row :: "DropcompleteItem option \<Rightarrow> DropcompleteItem \<Rightarrow> element list" where
  "update_row sel item =
     (case render item of
        None \<Rightarrow> []
      | Some itemDiv \<Rightarrow>
          [itemDiv\<lparr>click := Some item,
                   classList := (if Some item = sel then classList itemDiv @ [''selected'']
                                 else classList itemDiv)\<rparr>])"

text \<open>What it appends for a new group: the element of \<^verbatim>\<open>renderGroup\<close> with the class \<^verbatim>\<open>group\<close>.\<close>

definition update_header :: "string \<Rightarrow> element list" where
  "update_header g =
     (case renderGroup g of
        None \<Rightarrow> []
      | Some groupDiv \<Rightarrow> [groupDiv\<lparr>classList := classList groupDiv @ [''group'']\<rparr>])"

text \<open>
  The loop of \<^verbatim>\<open>update\<close> over \<^verbatim>\<open>this.items\<close>: the first argument is \<^verbatim>\<open>prevGroup\<close>, the second
  \<^verbatim>\<open>this.selected\<close>; the result is what the loop appends to the document fragment,
  in order. The test \<^verbatim>\<open>item.group && item.group !== prevGroup\<close> fails for an absent and
  for an empty group.
\<close>

fun update_loop :: "string \<Rightarrow> DropcompleteItem option \<Rightarrow> DropcompleteItem list \<Rightarrow> element list" where
  "update_loop prevGroup sel [] = []"
| "update_loop prevGroup sel (item # rest) =
     (case group item of
        None \<Rightarrow> update_row sel item @ update_loop prevGroup sel rest
      | Some g \<Rightarrow>
          if g \<noteq> [] \<and> g \<noteq> prevGroup
          then update_header g @ update_row sel item @ update_loop g sel rest
          else update_row sel item @ update_loop prevGroup sel rest)"

text \<open>
  \<^verbatim>\<open>update\<close>: the children of the container are removed and the fragment is appended;
  with no items, either the element of the empty message is appended or the state is
  cleared and the function returns; otherwise the container is attached.
\<close>

definition update :: "Dropcomplete \<Rightarrow> Dropcomplete" where
  "update s =
     (let fragment = update_loop ''#9?$'' (selected s) (items s);
          s1 = s\<lparr>container_childNodes := fragment\<rparr>
      in if length (items s1) < 1
         then (case emptyMsg s1 of
                 None \<Rightarrow> clear s1
               | Some msg \<Rightarrow>
                   if msg \<noteq> []
                   then attach (s1\<lparr>container_childNodes := container_childNodes s1 @
                          [\<lparr>textContent = msg, classList = [''empty''], click = None\<rparr>]\<rparr>)
                   else clear s1)
         else attach s1)"

definition updateIfDisplayed :: "Dropcomplete \<Rightarrow> Dropcomplete" where
  "updateIfDisplayed s = (if containerDisplayed s then update s else s)"

section \<open>Fetching\<close>

text \<open>
  The closure that \<^verbatim>\<open>startFetch\<close> passes to \<^verbatim>\<open>fetch\<close> as \<^verbatim>\<open>update\<close>. It captures
  \<^verbatim>\<open>savedKeypressCounter\<close> and \<^verbatim>\<open>inputText\<close>; its argument is an array of items or \<^verbatim>\<open>false\<close>
  (\<open>None\<close>). It runs on the state the widget has when the caller invokes it.
\<close>

definition startFetch_update ::
  "nat \<Rightarrow> string \<Rightarrow> DropcompleteItem list option \<Rightarrow> Dropcomplete \<Rightarrow> Dropcomplete" where
  "startFetch_update savedKeypressCounter inputText result s =
     (case result of
        None \<Rightarrow> s
      | Some its \<Rightarrow>
          if keypressCounter s = savedKeypressCounter
          then update (s\<lparr>items := its, inputValue := inputText,
                         selected := (if length its < 1 then None else item_at its 0)\<rparr>)
          else s)"

definition startFetch :: "bool \<Rightarrow> Dropcomplete \<Rightarrow> Dropcomplete \<times> call list" where
  "startFetch isFocus s =
     (let savedKeypressCounter = keypressCounter s + 1;
          s1 = s\<lparr>keypressCounter := savedKeypressCounter\<rparr>;
          inputText = input_value s1;
          cursorPos = (case input_selectionStart s1 of None \<Rightarrow> 0 | Some n \<Rightarrow> n)
      in if int (length inputText) \<ge> minLen s1 \<or> isFocus
         then (s1, [Fetch inputText savedKeypressCounter isFocus cursorPos])
         else (clear s1, []))"

section \<open>Event handlers\<close>

definition keyupEventHandler :: "string \<Rightarrow> Dropcomplete \<Rightarrow> Dropcomplete \<times> call list" where
  "keyupEventHandler key s =
     (if key \<in> set [''ArrowUp'', ''Enter'', ''Escape'', ''ArrowRight'', ''ArrowLeft'', ''Shift'',
                     ''Control'', ''Alt'', ''CapsLock'', ''Meta'', ''Tab'']
      then (s, [])
      else if key = ''Fn'' then (s, [])
      else if key = ''ArrowDown'' \<and> containerDisplayed s then (s, [])
      else startFetch False s)"

definition keydownEventHandler :: "string \<Rightarrow> Dropcomplete \<Rightarrow> Dropcomplete \<times> call list" where
  "keydownEventHandler key s =
     (if key = ''ArrowUp'' \<or> key = ''ArrowDown'' \<or> key = ''Escape''
      then (if key = ''Escape'' then (clear s, [])
            else if \<not> containerDisplayed s \<or> length (items s) < 1 then (s, [])
            else (update (if key = ''ArrowUp'' then selectPrev s else selectNext s), []))
      else if key = ''Enter''
      then (case selected s of
              Some item \<Rightarrow> (clear s, [OnSelect item])
            | None \<Rightarrow> (s, []))
      else (s, []))"

definition focusEventHandler :: "Dropcomplete \<Rightarrow> Dropcomplete \<times> call list" where
  "focusEventHandler s = (if showOnFocus s = Some True then startFetch True s else (s, []))"

text \<open>
  \<^verbatim>\<open>blurEventHandler\<close> only sets a timer; \<open>blurTimeout\<close> is the function the timer runs,
  its argument saying whether \<^verbatim>\<open>document.activeElement\<close> is the input at that time.
\<close>

definition blurTimeout :: "bool \<Rightarrow> Dropcomplete \<Rightarrow> Dropcomplete" where
  "blurTimeout inputIsActive s = (if \<not> inputIsActive then clear s else s)"

definition resizeEventHandler :: "Dropcomplete \<Rightarrow> Dropcomplete" where
  "resizeEventHandler s = updateIfDisplayed s"

text \<open>The argument says whether \<^verbatim>\<open>event.target\<close> is the container.\<close>

definition scrollEventHandler :: "bool \<Rightarrow> Dropcomplete \<Rightarrow> Dropcomplete" where
  "scrollEventHandler targetIsContainer s =
     (if \<not> targetIsContainer then updateIfDisplayed s else s)"

text \<open>The click listener that \<^verbatim>\<open>update\<close> adds to the element of an item.\<close>

definition clickHandler :: "DropcompleteItem \<Rightarrow> Dropcomplete \<Rightarrow> Dropcomplete \<times> call list" where
  "clickHandler item s = (clear s, [OnSelect item])"

section \<open>Construction, listeners and \<^verbatim>\<open>destroy\<close>\<close>

text \<open>
  The listener lists of the input element, the window and the document. A listener is
  a function object, and \<^verbatim>\<open>removeEventListener\<close> removes the registration whose type,
  function object and capture flag are the ones given. The constructor registers arrow
  functions, each created there and calling one handler method on the widget:
  \<open>Arrow h\<close>. \<open>Method h\<close> is the function object of the method \<open>h\<close> itself, which is what
  \<^verbatim>\<open>destroy\<close> passes to \<^verbatim>\<open>removeEventListener\<close>.
\<close>

datatype target = InputElement | WindowObject | DocumentObject

datatype handler =
  KeydownHandler | KeyupHandler | BlurHandler | FocusHandler | ResizeHandler | ScrollHandler

datatype listener = Arrow handler | Method handler

type_synonym registration = "target \<times> string \<times> listener \<times> bool"

definition addEventListener :: "registration \<Rightarrow> registration list \<Rightarrow> registration list" where
  "addEventListener r rs = (if r \<in> set rs then rs else rs @ [r])"

definition removeEventListener :: "registration \<Rightarrow> registration list \<Rightarrow> registration list" where
  "removeEventListener r rs = filter (\<lambda>x. x \<noteq> r) rs"

record DropcompleteSettings =
  cfg_input_value :: string
  cfg_input_selectionStart :: "nat option"
  cfg_minLength :: "int option"
  cfg_emptyMsg :: "string option"
  cfg_showOnFocus :: "bool option"
  cfg_preventSubmit :: "bool option"

record page =
  widget :: Dropcomplete
  listeners :: "registration list"

definition constructor :: "DropcompleteSettings \<Rightarrow> page" where
  "constructor settings =
     \<lparr>widget =
        \<lparr>input_value = cfg_input_value settings,
         input_selectionStart = cfg_input_selectionStart settings,
         minLen = (case cfg_minLength settings of None \<Rightarrow> 2 | Some n \<Rightarrow> n),
         emptyMsg = cfg_emptyMsg settings,
         showOnFocus = cfg_showOnFocus settings,
         preventSubmit = (case cfg_preventSubmit settings of None \<Rightarrow> False | Some b \<Rightarrow> b),
         container_childNodes = [],
         container_attached = False,
         items = [],
         inputValue = [],
         selected = None,
         keypressCounter = 0\<rparr>,
      listeners =
        fold addEventListener
          [(InputElement, ''keydown'', Arrow KeydownHandler, False),
           (InputElement, ''keyup'', Arrow KeyupHandler, False),
           (InputElement, ''blur'', Arrow BlurHandler, False),
           (InputElement, ''focus'', Arrow FocusHandler, False),
           (WindowObject, ''resize'', Arrow ResizeHandler, False),
           (DocumentObject, ''scroll'', Arrow ScrollHandler, True)] []\<rparr>"

definition destroy :: "page \<Rightarrow> page" where
  "destroy p =
     p\<lparr>listeners :=
         fold removeEventListener
           [(InputElement, ''keydown'', Method KeydownHandler, False),
            (InputElement, ''keyup'', Method KeyupHandler, False),
            (InputElement, ''focus'', Method FocusHandler, False),
            (InputElement, ''blur'', Method BlurHandler, False),
            (WindowObject, ''resize'', Method ResizeHandler, False),
            (DocumentObject, ''scroll'', Method ScrollHandler, True)]
           (listeners p),
       widget := clear (widget p)\<rparr>"

text \<open>
  The events the widget listens to: a key event on the input with its key, focus and
  blur of the input, a resize of the window, and a scroll event seen by the document,
  with a flag saying whether its target is the container.
\<close>

datatype event =
  KeyDown string | KeyUp string | FocusIn | BlurOut | WindowResize | DocumentScroll bool

fun event_target :: "event \<Rightarrow> target" where
  "event_target (KeyDown k) = InputElement"
| "event_target (KeyUp k) = InputElement"
| "event_target FocusIn = InputElement"
| "event_target BlurOut = InputElement"
| "event_target WindowResize = WindowObject"
| "event_target (DocumentScroll b) = DocumentObject"

fun event_type :: "event \<Rightarrow> string" where
  "event_type (KeyDown k) = ''keydown''"
| "event_type (KeyUp k) = ''keyup''"
| "event_type FocusIn = ''focus''"
| "event_type BlurOut = ''blur''"
| "event_type WindowResize = ''resize''"
| "event_type (DocumentScroll b) = ''scroll''"

text \<open>
  Running one registered listener on an event. An arrow function of the constructor calls
  its handler on the widget; the blur handler only starts its timer (see \<open>blurTimeout\<close>).
  A bare method would run with the element as \<^verbatim>\<open>this\<close> and never touches the widget.
\<close>

fun run_handler :: "handler \<Rightarrow> event \<Rightarrow> Dropcomplete \<Rightarrow> Dropcomplete \<times> call list" where
  "run_handler KeydownHandler e s =
     (case e of KeyDown k \<Rightarrow> keydownEventHandler k s | _ \<Rightarrow> (s, []))"
| "run_handler KeyupHandler e s =
     (case e of KeyUp k \<Rightarrow> keyupEventHandler k s | _ \<Rightarrow> (s, []))"
| "run_handler BlurHandler e s = (s, [])"
| "run_handler FocusHandler e s = focusEventHandler s"
| "run_handler ResizeHandler e s = (resizeEventHandler s, [])"
| "run_handler ScrollHandler e s =
     (case e of DocumentScroll b \<Rightarrow> (scrollEventHandler b s, []) | _ \<Rightarrow> (s, []))"

fun run_listener :: "listener \<Rightarrow> event \<Rightarrow> Dropcomplete \<Rightarrow> Dropcomplete \<times> call list" where
  "run_listener (Arrow h) e s = run_handler h e s"
| "run_listener (Method h) e s = (s, [])"

fun run_listeners :: "registration list \<Rightarrow> event \<Rightarrow> Dropcomplete \<Rightarrow> Dropcomplete \<times> call list" where
  "run_listeners [] e s = (s, [])"
| "run_listeners ((t, ty, l, c) # rs) e s =
     (if t = event_target e \<and> ty = event_type e
      then (case run_listener l e s of
              (s1, cs1) \<Rightarrow> (case run_listeners rs e s1 of (s2, cs2) \<Rightarrow> (s2, cs1 @ cs2)))
      else run_listeners rs e s)"

definition dispatchEvent :: "event \<Rightarrow> page \<Rightarrow> page \<times> call list" where
  "dispatchEvent e p =
     (case run_listeners (listeners p) e (widget p) of (s', cs) \<Rightarrow> (p\<lparr>widget := s'\<rparr>, cs))"

section \<open>Histories\<close>

text \<open>
  What can happen to a page, one step at a time: the user edits the input, an event is
  dispatched, the timer of a blur fires, an element of the overlay is clicked, the caller
  invokes the \<^verbatim>\<open>update\<close> closure it got with the \<open>k\<close>-th call made so far (as often and as
  late as it likes, with an array or \<^verbatim>\<open>false\<close>), or \<^verbatim>\<open>destroy\<close> is called. The second
  component of the state is the list of calls made to the caller's callbacks so far.
\<close>

datatype action =
  SetInput string "nat option"
| Dispatch event
| BlurTimer bool
| Click DropcompleteItem
| Completion nat "DropcompleteItem list option"
| Destroy

definition complete :: "call \<Rightarrow> DropcompleteItem list option \<Rightarrow> Dropcomplete \<Rightarrow> Dropcomplete" where
  "complete c r s =
     (case c of
        Fetch inputText savedKeypressCounter isFocus cursorPos \<Rightarrow>
          startFetch_update savedKeypressCounter inputText r s
      | OnSelect item \<Rightarrow> s)"

fun step :: "action \<Rightarrow> page \<times> call list \<Rightarrow> page \<times> call list" where
  "step (SetInput v pos) (p, log) =
     (p\<lparr>widget := (widget p)\<lparr>input_value := v, input_selectionStart := pos\<rparr>\<rparr>, log)"
| "step (Dispatch e) (p, log) = (case dispatchEvent e p of (p', cs) \<Rightarrow> (p', log @ cs))"
| "step (BlurTimer inputIsActive) (p, log) = (p\<lparr>widget := blurTimeout inputIsActive (widget p)\<rparr>, log)"
| "step (Click item) (p, log) =
     (if container_attached (widget p) \<and> Some item \<in> set (map click (container_childNodes (widget p)))
      then (case clickHandler item (widget p) of (s', cs) \<Rightarrow> (p\<lparr>widget := s'\<rparr>, log @ cs))
      else (p, log))"
| "step (Completion k r) (p, log) =
     (if k < length log then (p\<lparr>widget := complete (log ! k) r (widget p)\<rparr>, log) else (p, log))"
| "step Destroy (p, log) = (destroy p, log)"

fun run :: "action list \<Rightarrow> page \<times> call list \<Rightarrow> page \<times> call list" where
  "run [] st = st"
| "run (a # as) st = run as (step a st)"

text \<open>The counter values saved by the \<^verbatim>\<open>fetch\<close> calls of a list of calls, in order.\<close>

fun fetch_epochs :: "call list \<Rightarrow> nat list" where
  "fetch_epochs [] = []"
| "fetch_epochs (Fetch t n f c # cs) = n # fetch_epochs cs"
| "fetch_epochs (OnSelect i # cs) = fetch_epochs cs"

text \<open>
  What a handler may do to the counter and which \<^verbatim>\<open>fetch\<close> calls it may make: from the
  state \<open>s\<close> it never lowers the counter, and the counter values its \<^verbatim>\<open>fetch\<close> calls save are
  increasing, above the counter of \<open>s\<close> and at most the counter it leaves.
\<close>

definition fresh_calls :: "Dropcomplete \<Rightarrow> Dropcomplete \<times> call list \<Rightarrow> bool" where
  "fresh_calls s r =
     (keypressCounter s \<le> keypressCounter (fst r)
      \<and> sorted_wrt (<) (fetch_epochs (snd r))
      \<and> (\<forall>e \<in> set (fetch_epochs (snd r)). keypressCounter s < e \<and> e \<le> keypressCounter (fst r)))"

text \<open>
  The same for a history: the saved counter values of the \<^verbatim>\<open>fetch\<close> calls made so far are
  increasing and none is above the counter of the widget.
\<close>

definition log_inv :: "page \<times> call list \<Rightarrow> bool" where
  "log_inv st =
     (sorted_wrt (<) (fetch_epochs (snd st))
      \<and> (\<forall>e \<in> set (fetch_epochs (snd st)). e \<le> keypressCounter (widget (fst st))))"

text \<open>The invariant of the selection: \<^verbatim>\<open>selected\<close>, when defined, is one of \<^verbatim>\<open>items\<close>.\<close>

definition selected_in_items :: "Dropcomplete \<Rightarrow> bool" where
  "selected_in_items s = (case selected s of None \<Rightarrow> True | Some x \<Rightarrow> x \<in> set (items s))"

section \<open>What the overlay is expected to hold\<close>

text \<open>
  The elements the default renderers give, as \<^verbatim>\<open>update\<close> leaves them: the header of a
  group, and the element of an item with its click listener, marked when the item is the
  selected one.
\<close>

definition group_element :: "string \<Rightarrow> element" where
  "group_element g = \<lparr>textContent = g, classList = [''group''], click = None\<rparr>"

definition item_element :: "DropcompleteItem option \<Rightarrow> DropcompleteItem \<Rightarrow> element" where
  "item_element sel item =
     \<lparr>textContent = (case label item of None \<Rightarrow> [] | Some l \<Rightarrow> l),
      classList = (if Some item = sel then [''selected''] else []),
      click = Some item\<rparr>"

text \<open>What stands in the overlay for one item: its header, if one is due, then its element.\<close>

definition item_block :: "bool \<Rightarrow> DropcompleteItem option \<Rightarrow> DropcompleteItem \<Rightarrow> element list" where
  "item_block header sel item =
     (if header then (case group item of None \<Rightarrow> [] | Some g \<Rightarrow> [group_element g]) else [])
     @ [item_element sel item]"

text \<open>The non-empty group names of a list of items, in order.\<close>

fun named_groups :: "DropcompleteItem list \<Rightarrow> string list" where
  "named_groups [] = []"
| "named_groups (item # rest) =
     (case group item of
        None \<Rightarrow> named_groups rest
      | Some g \<Rightarrow> if g \<noteq> [] then g # named_groups rest else named_groups rest)"

text \<open>
  A header is due before the item at position \<open>i\<close> when the item has a non-empty group
  that differs from the last non-empty group before it, or from \<open>initial\<close> when no
  item before it has one.
\<close>

definition header_due :: "string \<Rightarrow> DropcompleteItem list \<Rightarrow> nat \<Rightarrow> bool" where
  "header_due initial its i =
     (case group (its ! i) of
        None \<Rightarrow> False
      | Some g \<Rightarrow> g \<noteq> [] \<and> g \<noteq> last (initial # named_groups (take i its)))"

text \<open>
  The same with no initial name: a header is expected before the item at position \<open>i\<close>
  when the item has a non-empty group and either no item before it has one, or the
  nearest one before it that has one is of another group.
\<close>

definition header_expected :: "DropcompleteItem list \<Rightarrow> nat \<Rightarrow> bool" where
  "header_expected its i =
     (case group (its ! i) of
        None \<Rightarrow> False
      | Some g \<Rightarrow>
          g \<noteq> [] \<and> (named_groups (take i its) = [] \<or> last (named_groups (take i its)) \<noteq> g))"

text \<open>An element is a group header when it carries the class \<^verbatim>\<open>group\<close>.\<close>

definition is_header :: "element \<Rightarrow> bool" where
  "is_header e = (''group'' \<in> set (classList e))"

section \<open>Example inputs\<close>

text \<open>
  A widget on an input holding the text \<^verbatim>\<open>ab\<close>, with every optional setting left out, and
  one with the empty message \<^verbatim>\<open>No results\<close>; three items, two of them in group \<^verbatim>\<open>G1\<close>
  and one in \<^verbatim>\<open>G2\<close>; an item without a group.
\<close>

definition ex_settings :: DropcompleteSettings where
  "ex_settings =
     \<lparr>cfg_input_value = ''ab'', cfg_input_selectionStart = Some 2, cfg_minLength = None,
      cfg_emptyMsg = None, cfg_showOnFocus = None, cfg_preventSubmit = None\<rparr>"

definition ex_settings_msg :: DropcompleteSettings where
  "ex_settings_msg = ex_settings\<lparr>cfg_emptyMsg := Some ''No results''\<rparr>"

definition ex_widget :: Dropcomplete where
  "ex_widget = widget (constructor ex_settings)"

definition ex_a :: DropcompleteItem where
  "ex_a = \<lparr>oid = 0, label = Some ''a'', group = Some ''G1''\<rparr>"

definition ex_b :: DropcompleteItem where
  "ex_b = \<lparr>oid = 1, label = Some ''b'', group = Some ''G1''\<rparr>"

definition ex_c :: DropcompleteItem where
  "ex_c = \<lparr>oid = 2, label = Some ''c'', group = Some ''G2''\<rparr>"

definition ex_plain :: DropcompleteItem where
  "ex_plain = \<lparr>oid = 3, label = Some ''p'', group = None\<rparr>"

text \<open>The example widget showing the three items, with a given selection.\<close>

definition ex_open :: "DropcompleteItem option \<Rightarrow> Dropcomplete" where
  "ex_open sel = ex_widget\<lparr>items := [ex_a, ex_b, ex_c], selected := sel\<rparr>"

text \<open>The example widget showing an item of \<^verbatim>\<open>G1\<close>, an item without group, an item of \<^verbatim>\<open>G1\<close>.\<close>

definition ex_mixed :: Dropcomplete where
  "ex_mixed = ex_widget\<lparr>items := [ex_a, ex_plain, ex_b], selected := Some ex_a\<rparr>"

text \<open>
  A history on the example widget: a key is released with \<^verbatim>\<open>ab\<close> in the input, the user
  types on to \<^verbatim>\<open>abc\<close> and releases a key again, before the caller has answered the first
  \<^verbatim>\<open>fetch\<close>. \<open>ex_typed\<close> is the widget after it.
\<close>

definition ex_acts :: "action list" where
  "ex_acts = [Dispatch (KeyUp ''b''), SetInput ''abc'' (Some 3), Dispatch (KeyUp ''c'')]"

definition ex_typed :: Dropcomplete where
  "ex_typed = widget (fst (run ex_acts (constructor ex_settings, [])))"

text \<open>The example widget with its overlay attached and one character in the input.\<close>

definition ex_shown :: Dropcomplete where
  "ex_shown = (ex_open (Some ex_a))\<lparr>container_attached := True, input_value := ''a''\<rparr>"

section \<open>Reading arrays\<close>

lemma item_at_Nil [simp]: "item_at [] i = None"
  by (simp add: item_at_def)

lemma item_at_int: "item_at xs (int k) = (if k < length xs then Some (xs ! k) else None)"
  by (simp add: item_at_def)

lemma item_at_0: "item_at xs 0 = (if xs = [] then None else Some (hd xs))"
  by (cases xs) (simp_all add: item_at_def)

lemma item_at_0_nth: "xs \<noteq> [] \<Longrightarrow> item_at xs 0 = Some (xs ! 0)"
  by (simp add: item_at_def)

lemma item_at_pred: "item_at xs (int (Suc j) - 1) = item_at xs (int j)"
  by simp

lemma item_at_succ: "item_at xs (int i + 1) = item_at xs (int (Suc i))"
  by (simp add: add.commute)

lemma item_at_last: "item_at xs (int (length xs) - 1) = (if xs = [] then None else Some (last xs))"
proof (cases xs rule: rev_cases)
  case Nil
  then show ?thesis by (simp add: item_at_def)
next
  case (snoc ys y)
  then have "int (length xs) - 1 = int (length ys)" by simp
  then show ?thesis using snoc by (simp add: item_at_int)
qed

lemma item_at_last_nth:
  "Suc k = length xs \<Longrightarrow> item_at xs (int (length xs) - 1) = Some (xs ! k)"
proof -
  assume "Suc k = length xs"
  then have a: "length xs = Suc k" by simp
  then have "int (length xs) - 1 = int k" by simp
  then show ?thesis using a by (simp add: item_at_int)
qed

section \<open>Properties of the selection\<close>

lemma clear_fields [simp]:
  "items (clear s) = []" "selected (clear s) = None" "inputValue (clear s) = []"
  "container_attached (clear s) = False"
  "keypressCounter (clear s) = Suc (keypressCounter s)"
  by (simp_all add: clear_def detach_def)

lemma selectPrev_loop_step:
  "sel \<noteq> item_at its (int (Suc i)) \<Longrightarrow> i \<noteq> 0 \<Longrightarrow>
   selectPrev_loop its sel (Suc i) = selectPrev_loop its sel i"
  by simp

lemma selectPrev_loop_hit:
  "sel = item_at its (int (Suc i)) \<or> i = 0 \<Longrightarrow>
   selectPrev_loop its sel (Suc i) = item_at its (int i)"
  by (auto simp: item_at_pred simp del: of_nat_Suc)

lemma selectPrev_loop_found:
  assumes "0 < k" and "k \<le> i" and "i < length its" and "sel = Some (its ! k)"
    and "\<forall>j. k < j \<and> j \<le> i \<longrightarrow> its ! j \<noteq> its ! k"
  shows "selectPrev_loop its sel i = Some (its ! (k - 1))"
  using assms
proof (induction i)
  case 0
  then show ?case by simp
next
  case (Suc i)
  show ?case
  proof (cases "k = Suc i")
    case True
    with Suc.prems have "sel = item_at its (int (Suc i))"
      by (simp add: item_at_int del: of_nat_Suc)
    then have "selectPrev_loop its sel (Suc i) = item_at its (int i)"
      by (simp add: selectPrev_loop_hit)
    with True Suc.prems show ?thesis by (simp add: item_at_int)
  next
    case False
    with Suc.prems have lt: "k < Suc i \<and> Suc i \<le> Suc i" and le: "k \<le> i" by simp_all
    with Suc.prems(5) have "its ! Suc i \<noteq> its ! k" by blast
    then have "its ! k \<noteq> its ! Suc i" by (rule not_sym)
    with Suc.prems have "sel \<noteq> item_at its (int (Suc i))"
      by (simp add: item_at_int del: of_nat_Suc)
    moreover from le Suc.prems have "i \<noteq> 0" by auto
    ultimately have "selectPrev_loop its sel (Suc i) = selectPrev_loop its sel i"
      by (rule selectPrev_loop_step)
    moreover have "selectPrev_loop its sel i = Some (its ! (k - 1))"
      using Suc.prems le by (intro Suc.IH) auto
    ultimately show ?thesis by simp
  qed
qed

lemma selectPrev_loop_None:
  "0 < i \<Longrightarrow> i < length its \<Longrightarrow> selectPrev_loop its None i = Some (its ! 0)"
proof (induction i)
  case 0
  then show ?case by simp
next
  case (Suc i)
  then have ne: "its \<noteq> []" by auto
  show ?case
  proof (cases "i = 0")
    case True
    then have "selectPrev_loop its None (Suc i) = item_at its (int i)"
      by (simp add: selectPrev_loop_hit)
    with True ne show ?thesis by (simp add: item_at_0_nth)
  next
    case False
    from Suc.prems have "None \<noteq> item_at its (int (Suc i))"
      by (simp add: item_at_int del: of_nat_Suc)
    then have "selectPrev_loop its None (Suc i) = selectPrev_loop its None i"
      using False by (rule selectPrev_loop_step)
    with Suc False show ?thesis by simp
  qed
qed

lemma selectPrev_loop_mem:
  "i < length its \<Longrightarrow>
   selectPrev_loop its sel i = sel \<or> (\<exists>x \<in> set its. selectPrev_loop its sel i = Some x)"
proof (induction i)
  case 0
  then show ?case by simp
next
  case (Suc i)
  then have "item_at its (int i) = Some (its ! i)" "its ! i \<in> set its"
    by (simp_all add: item_at_int)
  with Suc show ?case
    by (cases "sel = item_at its (int (Suc i)) \<or> i = 0")
       (simp_all only: selectPrev_loop_hit selectPrev_loop_step, auto)
qed

lemma selectNext_loop_found:
  "i \<le> k \<Longrightarrow> k + 1 < length its \<Longrightarrow> sel = Some (its ! k) \<Longrightarrow>
   (\<forall>j. i \<le> j \<and> j < k \<longrightarrow> its ! j \<noteq> its ! k) \<Longrightarrow>
   selectNext_loop its sel i = Some (its ! (k + 1))"
proof (induction its sel i rule: selectNext_loop.induct)
  case (1 its sel i)
  show ?case
  proof (cases "i = k")
    case True
    with "1.prems" show ?thesis
      by (subst selectNext_loop.simps) (simp add: item_at_succ item_at_int del: of_nat_Suc)
  next
    case False
    with "1.prems" have lt: "i < k" by simp
    with "1.prems"(4) have "its ! i \<noteq> its ! k" by blast
    then have ne: "its ! k \<noteq> its ! i" by (rule not_sym)
    from lt "1.prems" have inr: "int i < int (length its) - 1" by simp
    from lt "1.prems" ne have neq: "sel \<noteq> item_at its (int i)" by (simp add: item_at_int)
    have "selectNext_loop its sel (i + 1) = Some (its ! (k + 1))"
      using lt "1.prems" by (intro "1.IH" [OF inr neq]) auto
    with inr neq show ?thesis
      by (subst selectNext_loop.simps) simp
  qed
qed

lemma selectNext_loop_mem:
  "selectNext_loop its sel i = sel \<or> (\<exists>x \<in> set its. selectNext_loop its sel i = Some x)"
proof (induction its sel i rule: selectNext_loop.induct)
  case (1 its sel i)
  show ?case
  proof (cases "int i < int (length its) - 1")
    case False
    then show ?thesis by (subst selectNext_loop.simps) simp
  next
    case True
    then have "item_at its (int i + 1) = Some (its ! (i + 1))"
      by (simp add: item_at_succ item_at_int del: of_nat_Suc)
    moreover from True have "its ! (i + 1) \<in> set its" by simp
    ultimately show ?thesis using True "1.IH"
      by (subst (1 2) selectNext_loop.simps) (auto simp del: nth_mem)
  qed
qed

lemma selectNext_distinct:
  assumes d: "distinct (items s)" and k: "k < length (items s)" and sel: "selected s = Some (items s ! k)"
  shows "selectNext s = s\<lparr>selected := Some (items s ! (if k + 1 = length (items s) then 0 else k + 1))\<rparr>"
proof -
  from k have nonempty: "items s \<noteq> []" by auto
  then have at0: "item_at (items s) 0 = Some (items s ! 0)" by (rule item_at_0_nth)
  show ?thesis
  proof (cases "k + 1 = length (items s)")
    case True
    then have "item_at (items s) (int (length (items s)) - 1) = Some (items s ! k)"
      by (intro item_at_last_nth) simp
    with at0 True sel nonempty show ?thesis by (simp add: selectNext_def Let_def)
  next
    case False
    with k have k1: "k + 1 < length (items s)" by simp
    obtain m where m: "Suc m = length (items s)" using nonempty by (cases "items s") auto
    then have "item_at (items s) (int (length (items s)) - 1) = Some (items s ! m)"
      by (rule item_at_last_nth)
    moreover from d k1 m have "items s ! k \<noteq> items s ! m"
      by (simp add: nth_eq_iff_index_eq)
    ultimately have ne: "selected s \<noteq> item_at (items s) (int (length (items s)) - 1)"
      using sel by simp
    have "selectNext_loop (items s) (selected s) 0 = Some (items s ! (k + 1))"
      using d k1 sel by (intro selectNext_loop_found) (auto simp: nth_eq_iff_index_eq)
    with ne sel k1 False nonempty show ?thesis by (simp add: selectNext_def Let_def)
  qed
qed

lemma ex_widget_simps:
  "items ex_widget = []" "selected ex_widget = None" "keypressCounter ex_widget = 0"
  "container_attached ex_widget = False" "input_value ex_widget = ''ab''"
  "minLen ex_widget = 2" "emptyMsg ex_widget = None"
  by (simp_all add: ex_widget_def constructor_def ex_settings_def)

lemma ex_items_distinct: "distinct [ex_a, ex_b, ex_c]"
  by (simp add: ex_a_def ex_b_def ex_c_def)

lemma ex_open_simps:
  "items (ex_open sel) = [ex_a, ex_b, ex_c]" "selected (ex_open sel) = sel"
  "emptyMsg (ex_open sel) = None"
  by (simp_all add: ex_open_def ex_widget_simps)

lemma ex_groups: "group ex_a = Some ''G1''" "group ex_b = Some ''G1''" "group ex_c = Some ''G2''" "group ex_plain = None"
  by (simp_all add: ex_a_def ex_b_def ex_c_def ex_plain_def)

text \<open>
  C10. On an empty list of items both \<^verbatim>\<open>selectNext\<close> and \<^verbatim>\<open>selectPrev\<close> return, and they
  leave \<^verbatim>\<open>selected\<close> undefined and every other field as it was, whatever \<^verbatim>\<open>selected\<close> was
  before: the reads of \<^verbatim>\<open>items[items.length - 1]\<close> and \<^verbatim>\<open>items[0]\<close> that \<^verbatim>\<open>selectNext\<close> makes
  out of range give \<^verbatim>\<open>undefined\<close>.
\<close>

theorem select_on_empty_items:
  "items s = [] \<Longrightarrow>
   selectNext s = s\<lparr>selected := None\<rparr> \<and> selectPrev s = s\<lparr>selected := None\<rparr>"
  by (simp add: selectNext_def selectPrev_def Let_def)

theorem select_on_empty_items_witness:
  "items (ex_widget\<lparr>selected := Some ex_a\<rparr>) = []
   \<and> selected (selectNext (ex_widget\<lparr>selected := Some ex_a\<rparr>)) = None
   \<and> selected (selectPrev (ex_widget\<lparr>selected := Some ex_a\<rparr>)) = None"
  using select_on_empty_items [of "ex_widget\<lparr>selected := Some ex_a\<rparr>"]
  by (simp add: ex_widget_simps)

text \<open>
  C4, as the code has it. \<^verbatim>\<open>selectPrev\<close> changes no field but \<^verbatim>\<open>selected\<close>. On an empty list
  it leaves no selection. On a non-empty list it selects the last item when the first
  item is selected, and the item just before the selected one when the selected item
  stands at a later position (and nowhere else in the list). With no selection and at
  least two items it selects the first item: the loop runs down to \<open>i = 1\<close> and takes
  \<^verbatim>\<open>items[0]\<close> there.
\<close>

theorem selectPrev_selection:
  "(items s = [] \<longrightarrow> selected (selectPrev s) = None)
   \<and> (items s \<noteq> [] \<and> selected s = Some (hd (items s)) \<longrightarrow>
        selected (selectPrev s) = Some (last (items s)))
   \<and> (selected s = None \<and> 2 \<le> length (items s) \<longrightarrow>
        selected (selectPrev s) = Some (hd (items s)))
   \<and> (\<forall>k. 0 < k \<and> k < length (items s) \<and> selected s = Some (items s ! k)
          \<and> (\<forall>j < length (items s). j \<noteq> k \<longrightarrow> items s ! j \<noteq> items s ! k) \<longrightarrow>
        selected (selectPrev s) = Some (items s ! (k - 1)))
   \<and> (\<exists>v. selectPrev s = s\<lparr>selected := v\<rparr>)"
proof (intro conjI allI impI)
  show "items s = [] \<Longrightarrow> selected (selectPrev s) = None"
    by (simp add: selectPrev_def)
next
  assume a: "items s \<noteq> [] \<and> selected s = Some (hd (items s))"
  then have "item_at (items s) 0 = Some (hd (items s))"
    by (simp add: item_at_0)
  moreover from a have "item_at (items s) (int (length (items s)) - 1) = Some (last (items s))"
    by (simp add: item_at_last)
  ultimately show "selected (selectPrev s) = Some (last (items s))"
    using a by (simp add: selectPrev_def)
next
  assume a: "selected s = None \<and> 2 \<le> length (items s)"
  then have nonempty: "items s \<noteq> []" by auto
  then have "item_at (items s) 0 = Some (hd (items s))"
    by (simp add: item_at_0)
  moreover from a have "selectPrev_loop (items s) None (length (items s) - 1) = Some (items s ! 0)"
    by (intro selectPrev_loop_None) auto
  moreover from nonempty have "items s ! 0 = hd (items s)"
    by (simp add: hd_conv_nth)
  ultimately show "selected (selectPrev s) = Some (hd (items s))"
    using a nonempty by (simp add: selectPrev_def)
next
  fix k
  assume a: "0 < k \<and> k < length (items s) \<and> selected s = Some (items s ! k)
          \<and> (\<forall>j < length (items s). j \<noteq> k \<longrightarrow> items s ! j \<noteq> items s ! k)"
  then have "k < length (items s)" by simp
  then have nonempty: "items s \<noteq> []" by auto
  then have at0: "item_at (items s) 0 = Some (items s ! 0)" by (rule item_at_0_nth)
  from a nonempty have "0 < length (items s) \<and> 0 \<noteq> k" by simp
  with a have "items s ! 0 \<noteq> items s ! k" by blast
  then have "items s ! k \<noteq> items s ! 0" by (rule not_sym)
  with at0 a have ne: "selected s \<noteq> item_at (items s) 0" by simp
  from a have "selectPrev_loop (items s) (selected s) (length (items s) - 1) = Some (items s ! (k - 1))"
    by (intro selectPrev_loop_found) auto
  with ne nonempty show "selected (selectPrev s) = Some (items s ! (k - 1))"
    by (simp add: selectPrev_def)
next
  show "\<exists>v. selectPrev s = s\<lparr>selected := v\<rparr>"
    by (auto simp: selectPrev_def)
qed

theorem selectPrev_selection_witness:
  "selected (selectPrev ex_widget) = None
   \<and> selected (selectPrev (ex_open (Some ex_a))) = Some ex_c
   \<and> selected (selectPrev (ex_open None)) = Some ex_a
   \<and> selected (selectPrev (ex_open (Some ex_c))) = Some ex_b"
  using selectPrev_selection [of ex_widget]
    selectPrev_selection [of "ex_open (Some ex_a)"]
    selectPrev_selection [of "ex_open None"]
    selectPrev_selection [of "ex_open (Some ex_c)", THEN conjunct2, THEN conjunct2, THEN conjunct2,
      THEN conjunct1, rule_format, of 2]
    ex_items_distinct
  by (simp add: ex_widget_simps ex_open_simps less_Suc_eq numeral_3_eq_3 numeral_2_eq_2)

text \<open>
  The claim C4 itself fails with no selection: on the three example items
  \<^verbatim>\<open>selectPrev\<close> selects the first item, which is not the last one.
\<close>

theorem selectPrev_no_selection_counterexample:
  "items (ex_open None) \<noteq> [] \<and> selected (ex_open None) = None
   \<and> selected (selectPrev (ex_open None)) = Some ex_a
   \<and> Some ex_a \<noteq> Some (last (items (ex_open None)))"
  by (simp add: ex_open_def selectPrev_def item_at_def ex_a_def ex_b_def ex_c_def
      numeral_3_eq_3)

text \<open>
  C5, as the code has it. On a list of pairwise different items, from a selection that is
  in the list, \<^verbatim>\<open>selectNext\<close> and then \<^verbatim>\<open>selectPrev\<close> give back the state they started from.
\<close>

theorem selectNext_selectPrev_roundtrip:
  assumes ne: "items s \<noteq> []" and d: "distinct (items s)"
    and sel: "selected s = Some x" and mem: "x \<in> set (items s)"
  shows "selectPrev (selectNext s) = s"
proof -
  from mem obtain k where k: "k < length (items s)" and x: "x = items s ! k"
    by (auto simp: in_set_conv_nth)
  let ?n = "if k + 1 = length (items s) then 0 else k + 1"
  let ?t = "s\<lparr>selected := Some (items s ! ?n)\<rparr>"
  have nx: "selectNext s = ?t" using selectNext_distinct [OF d k] sel x by simp
  have at0: "item_at (items s) 0 = Some (items s ! 0)" using ne by (rule item_at_0_nth)
  show ?thesis
  proof (cases "k + 1 = length (items s)")
    case True
    then have "item_at (items s) (int (length (items s)) - 1) = Some (items s ! k)"
      by (intro item_at_last_nth) simp
    with at0 have "selectPrev ?t = s" using True sel x ne
      by (simp add: selectPrev_def)
    with nx show ?thesis by simp
  next
    case False
    with k have k1: "k + 1 < length (items s)" by simp
    with d ne have "items s ! (k + 1) \<noteq> items s ! 0"
      by (simp add: nth_eq_iff_index_eq)
    moreover have "selectPrev_loop (items s) (Some (items s ! (k + 1))) (length (items s) - 1) = Some (items s ! (k + 1 - 1))"
      using d k1 by (intro selectPrev_loop_found) (auto simp: nth_eq_iff_index_eq)
    ultimately have "selectPrev ?t = s" using False sel x ne at0
      by (simp add: selectPrev_def)
    with nx show ?thesis by simp
  qed
qed

theorem selectNext_selectPrev_roundtrip_witness:
  "items (ex_open (Some ex_b)) \<noteq> [] \<and> distinct (items (ex_open (Some ex_b)))
   \<and> selected (ex_open (Some ex_b)) = Some ex_b \<and> ex_b \<in> set (items (ex_open (Some ex_b)))
   \<and> selectPrev (selectNext (ex_open (Some ex_b))) = ex_open (Some ex_b)"
  using selectNext_selectPrev_roundtrip [of "ex_open (Some ex_b)" ex_b] ex_items_distinct
  by (simp add: ex_open_simps)

text \<open>
  The claim C5 itself fails from no selection: \<^verbatim>\<open>selectNext\<close> selects the first item and
  \<^verbatim>\<open>selectPrev\<close> then wraps to the last one.
\<close>

theorem selectNext_selectPrev_counterexample:
  "items (ex_open None) \<noteq> []
   \<and> selected (selectPrev (selectNext (ex_open None))) \<noteq> selected (ex_open None)"
  by (simp add: ex_open_def selectPrev_def selectNext_def item_at_def Let_def)

section \<open>Properties of the rendering\<close>

lemma item_block_simps:
  "item_block False sel item = [item_element sel item]"
  "item_block True sel item =
     (case group item of None \<Rightarrow> [] | Some g \<Rightarrow> [group_element g]) @ [item_element sel item]"
  by (simp_all add: item_block_def)

lemma update_header_eq: "update_header g = [group_element g]"
  by (simp add: update_header_def renderGroup_def group_element_def)

lemma update_row_eq: "update_row sel item = [item_element sel item]"
  by (simp add: update_row_def render_def item_element_def split: option.splits)

lemma header_due_0:
  "header_due initial (item # rest) 0 =
     (case group item of None \<Rightarrow> False | Some g \<Rightarrow> g \<noteq> [] \<and> g \<noteq> initial)"
  by (simp add: header_due_def split: option.splits)

lemma header_due_Suc:
  "header_due initial (item # rest) (Suc i) =
     header_due (case group item of None \<Rightarrow> initial
                 | Some g \<Rightarrow> if g \<noteq> [] \<and> g \<noteq> initial then g else initial) rest i"
  by (auto simp: header_due_def split: option.splits)

lemma map_upt_Cons: "map f [0..<Suc n] = f 0 # map (\<lambda>i. f (Suc i)) [0..<n]"
  by (simp add: upt_conv_Cons map_Suc_upt [symmetric] del: upt_Suc)

lemma update_loop_blocks:
  "update_loop initial sel its =
     concat (map (\<lambda>i. item_block (header_due initial its i) sel (its ! i)) [0..<length its])"
proof (induction its arbitrary: initial)
  case Nil
  then show ?case by simp
next
  case (Cons item rest)
  show ?case
    by (cases "group item")
       (simp_all add: map_upt_Cons header_due_0 header_due_Suc Cons.IH item_block_simps
          update_header_eq update_row_eq del: upt_Suc)
qed

lemma header_due_expected:
  assumes "\<forall>it \<in> set its. group it \<noteq> Some ''#9?$''" and "i < length its"
  shows "header_due ''#9?$'' its i = header_expected its i"
proof -
  from assms have "group (its ! i) \<noteq> Some ''#9?$''" by simp
  then show ?thesis
    by (cases "named_groups (take i its) = []")
       (auto simp: header_due_def header_expected_def split: option.splits)
qed

lemma update_loop_clicks:
  "map click (filter (\<lambda>e. click e \<noteq> None) (update_loop initial sel its)) = map Some its"
  by (induction its arbitrary: initial)
     (auto simp: update_header_eq update_row_eq group_element_def item_element_def split: option.splits)

lemma update_childNodes:
  "container_childNodes (update s) =
     (if items s = []
      then (case emptyMsg s of
              None \<Rightarrow> []
            | Some msg \<Rightarrow> if msg \<noteq> [] then [\<lparr>textContent = msg, classList = [''empty''], click = None\<rparr>] else [])
      else update_loop ''#9?$'' (selected s) (items s))"
  by (simp add: update_def Let_def attach_def clear_def detach_def split: option.splits)

text \<open>
  C3, as the code has it. For items none of whose groups is the string \<^verbatim>\<open>#9?$\<close> with which
  \<^verbatim>\<open>update\<close> starts \<^verbatim>\<open>prevGroup\<close>, the overlay holds, for each item in order, the element of the
  item, preceded by a group header exactly when the item has a non-empty group and
  either no earlier item has a non-empty group or the nearest earlier item that has one
  is of another group. Items without a group, or with the empty string as group, get no
  header and are passed over when the next group is compared. In particular the three
  example items, of groups \<^verbatim>\<open>G1\<close>, \<^verbatim>\<open>G1\<close> and \<^verbatim>\<open>G2\<close>, give exactly two headers, \<^verbatim>\<open>G1\<close> before
  the first item and \<^verbatim>\<open>G2\<close> before the third.
\<close>

theorem group_headers:
  "(items s \<noteq> [] \<and> (\<forall>it \<in> set (items s). group it \<noteq> Some ''#9?$'') \<longrightarrow>
      container_childNodes (update s) =
        concat (map (\<lambda>i. item_block (header_expected (items s) i) (selected s) (items s ! i))
                  [0..<length (items s)]))
   \<and> container_childNodes (update (ex_open None)) =
        [group_element ''G1'', item_element None ex_a, item_element None ex_b,
         group_element ''G2'', item_element None ex_c]
   \<and> length (filter is_header (container_childNodes (update (ex_open None)))) = 2"
proof (intro conjI impI)
  assume a: "items s \<noteq> [] \<and> (\<forall>it \<in> set (items s). group it \<noteq> Some ''#9?$'')"
  then have "container_childNodes (update s) = update_loop ''#9?$'' (selected s) (items s)"
    by (simp add: update_childNodes)
  also have "\<dots> = concat (map (\<lambda>i. item_block (header_due ''#9?$'' (items s) i) (selected s) (items s ! i))
               [0..<length (items s)])"
    by (rule update_loop_blocks)
  also have "\<dots> = concat (map (\<lambda>i. item_block (header_expected (items s) i) (selected s) (items s ! i))
               [0..<length (items s)])"
    using a header_due_expected [of "items s"]
    by (intro arg_cong [where f = concat] map_cong) auto
  finally show "container_childNodes (update s) =
        concat (map (\<lambda>i. item_block (header_expected (items s) i) (selected s) (items s ! i))
                  [0..<length (items s)])" .
next
  show ex: "container_childNodes (update (ex_open None)) =
        [group_element ''G1'', item_element None ex_a, item_element None ex_b,
         group_element ''G2'', item_element None ex_c]"
    by (simp add: update_childNodes ex_open_simps ex_groups update_header_eq update_row_eq)
  show "length (filter is_header (container_childNodes (update (ex_open None)))) = 2"
    by (simp add: ex is_header_def group_element_def item_element_def)
qed

theorem group_headers_witness:
  "items (ex_open (Some ex_b)) \<noteq> []
   \<and> Some ''#9?$'' \<notin> set (map group (items (ex_open (Some ex_b))))
   \<and> container_childNodes (update (ex_open (Some ex_b))) =
        [group_element ''G1'', item_element (Some ex_b) ex_a, item_element (Some ex_b) ex_b,
         group_element ''G2'', item_element (Some ex_b) ex_c]"
  using group_headers [of "ex_open (Some ex_b)"]
  by (simp add: ex_open_simps ex_groups numeral_3_eq_3 header_expected_def item_block_def)

text \<open>
  The claim C3 itself fails on an item of \<^verbatim>\<open>G1\<close>, an item without group and another item
  of \<^verbatim>\<open>G1\<close>: the group of the third item differs from the group of the item before it,
  and no header stands before the third item.
\<close>

theorem group_headers_counterexample:
  "group ex_b \<noteq> group ex_plain
   \<and> container_childNodes (update ex_mixed) =
       [group_element ''G1'', item_element (Some ex_a) ex_a, item_element (Some ex_a) ex_plain,
        item_element (Some ex_a) ex_b]"
  by (simp add: update_childNodes ex_mixed_def ex_groups update_header_eq update_row_eq)

text \<open>
  C9. The default \<^verbatim>\<open>render\<close> returns an element for every item, with the label as text, or
  the empty text when the item has no label. So \<^verbatim>\<open>update\<close> skips no item: the elements
  of the overlay that have a click listener are, in order, one for each item of
  \<^verbatim>\<open>items\<close>, each listener holding its own item.
\<close>

theorem default_render_keeps_every_item:
  "render item = Some \<lparr>textContent = (case label item of None \<Rightarrow> [] | Some l \<Rightarrow> l), classList = [], click = None\<rparr>
   \<and> map click (filter (\<lambda>e. click e \<noteq> None) (container_childNodes (update s))) = map Some (items s)"
proof
  show "render item = Some \<lparr>textContent = (case label item of None \<Rightarrow> [] | Some l \<Rightarrow> l), classList = [], click = None\<rparr>"
    by (simp add: render_def split: option.splits)
next
  show "map click (filter (\<lambda>e. click e \<noteq> None) (container_childNodes (update s))) = map Some (items s)"
  proof (cases "items s = []")
    case True
    then show ?thesis by (simp add: update_childNodes split: option.splits)
  next
    case False
    then have "container_childNodes (update s) = update_loop ''#9?$'' (selected s) (items s)"
      by (simp add: update_childNodes)
    then show ?thesis by (simp only: update_loop_clicks)
  qed
qed

theorem default_render_keeps_every_item_witness:
  "render ex_plain = Some \<lparr>textContent = ''p'', classList = [], click = None\<rparr>
   \<and> map click (filter (\<lambda>e. click e \<noteq> None) (container_childNodes (update ex_mixed)))
       = [Some ex_a, Some ex_plain, Some ex_b]"
  using default_render_keeps_every_item [of ex_plain ex_mixed]
  by (simp add: ex_plain_def ex_mixed_def)

text \<open>
  C6, as the code has it. When \<^verbatim>\<open>update\<close> runs with no items and a non-empty \<^verbatim>\<open>emptyMsg\<close>,
  the overlay is attached and holds exactly one element, of class \<^verbatim>\<open>empty\<close>, whose text is
  the message, and nothing else changes. With no \<^verbatim>\<open>emptyMsg\<close>, or with the empty string
  as \<^verbatim>\<open>emptyMsg\<close>, the state is cleared (no items, no input value, no selection, the counter
  incremented) and the overlay is left empty and detached.
\<close>

theorem update_without_items:
  "items s = [] \<Longrightarrow>
   (\<forall>msg. emptyMsg s = Some msg \<and> msg \<noteq> [] \<longrightarrow>
      update s = s\<lparr>container_childNodes := [\<lparr>textContent = msg, classList = [''empty''], click = None\<rparr>],
                   container_attached := True\<rparr>)
   \<and> (emptyMsg s = None \<or> emptyMsg s = Some [] \<longrightarrow>
      update s = s\<lparr>container_childNodes := [], container_attached := False,
                   keypressCounter := keypressCounter s + 1, items := [], inputValue := [], selected := None\<rparr>)"
  by (auto simp: update_def Let_def attach_def clear_def detach_def)

theorem update_without_items_witness:
  "items (widget (constructor ex_settings_msg)) = []
   \<and> emptyMsg (widget (constructor ex_settings_msg)) = Some ''No results''
   \<and> container_attached (update (widget (constructor ex_settings_msg)))
   \<and> container_childNodes (update (widget (constructor ex_settings_msg)))
       = [\<lparr>textContent = ''No results'', classList = [''empty''], click = None\<rparr>]
   \<and> items ex_widget = [] \<and> emptyMsg ex_widget = None
   \<and> \<not> container_attached (update ex_widget)
   \<and> selected (update ex_widget) = None"
  using update_without_items [of "widget (constructor ex_settings_msg)"]
    update_without_items [of ex_widget]
  by (simp add: ex_widget_simps constructor_def ex_settings_msg_def ex_settings_def)

text \<open>
  The claim C6 itself fails when the configured \<^verbatim>\<open>emptyMsg\<close> is the empty string: the test
  \<^verbatim>\<open>if (this.emptyMsg)\<close> fails, the overlay is not attached and holds no element.
\<close>

theorem update_empty_message_counterexample:
  "items (ex_widget\<lparr>emptyMsg := Some []\<rparr>) = []
   \<and> emptyMsg (ex_widget\<lparr>emptyMsg := Some []\<rparr>) = Some []
   \<and> \<not> container_attached (update (ex_widget\<lparr>emptyMsg := Some []\<rparr>))
   \<and> container_childNodes (update (ex_widget\<lparr>emptyMsg := Some []\<rparr>)) = []"
  by (simp add: update_def Let_def clear_def detach_def ex_widget_simps)

section \<open>Properties of fetching\<close>

lemma update_fields:
  "items (update s) = (if items s = [] \<and> (emptyMsg s = None \<or> emptyMsg s = Some []) then [] else items s)"
  "selected (update s) = (if items s = [] \<and> (emptyMsg s = None \<or> emptyMsg s = Some []) then None else selected s)"
  "keypressCounter (update s) = (if items s = [] \<and> (emptyMsg s = None \<or> emptyMsg s = Some []) then Suc (keypressCounter s) else keypressCounter s)"
  by (auto simp: update_def Let_def attach_def clear_def detach_def split: option.splits)

lemma update_counter: "keypressCounter s \<le> keypressCounter (update s)"
  by (simp add: update_fields)

lemma selectPrev_fields [simp]: "items (selectPrev s) = items s" "keypressCounter (selectPrev s) = keypressCounter s"
  by (simp_all add: selectPrev_def)

lemma selectNext_fields [simp]: "items (selectNext s) = items s" "keypressCounter (selectNext s) = keypressCounter s"
  by (simp_all add: selectNext_def Let_def)

lemma fetch_epochs_append [simp]: "fetch_epochs (xs @ ys) = fetch_epochs xs @ fetch_epochs ys"
  by (induction xs rule: fetch_epochs.induct) simp_all

lemma fresh_calls_quiet: "keypressCounter s \<le> keypressCounter s' \<Longrightarrow> fetch_epochs cs = [] \<Longrightarrow> fresh_calls s (s', cs)"
  by (simp add: fresh_calls_def)

lemma fresh_calls_trans:
  "fresh_calls s (s1, cs1) \<Longrightarrow> fresh_calls s1 (s2, cs2) \<Longrightarrow> fresh_calls s (s2, cs1 @ cs2)"
  by (fastforce simp: fresh_calls_def sorted_wrt_append)

lemma startFetch_fresh: "fresh_calls s (startFetch isFocus s)"
  by (simp add: startFetch_def Let_def fresh_calls_def)

lemma keyup_fresh: "fresh_calls s (keyupEventHandler key s)"
  by (simp add: keyupEventHandler_def startFetch_fresh fresh_calls_quiet)

lemma keydown_fresh: "fresh_calls s (keydownEventHandler key s)"
  by (auto simp: keydownEventHandler_def fresh_calls_quiet update_fields split: option.splits)

lemma focus_fresh: "fresh_calls s (focusEventHandler s)"
  by (simp add: focusEventHandler_def startFetch_fresh fresh_calls_quiet)

lemma updateIfDisplayed_counter: "keypressCounter s \<le> keypressCounter (updateIfDisplayed s)"
  by (simp add: updateIfDisplayed_def update_counter)

lemma run_handler_fresh: "fresh_calls s (run_handler h e s)"
  by (cases h; cases e)
     (simp_all add: keyup_fresh keydown_fresh focus_fresh fresh_calls_quiet resizeEventHandler_def
        scrollEventHandler_def updateIfDisplayed_counter)

lemma run_listener_fresh: "fresh_calls s (run_listener l e s)"
  by (cases l) (simp_all add: run_handler_fresh fresh_calls_quiet)

lemma run_listeners_fresh: "fresh_calls s (run_listeners rs e s)"
proof (induction rs arbitrary: s)
  case Nil
  then show ?case by (simp add: fresh_calls_quiet)
next
  case (Cons r rs)
  obtain t ty l c where r: "r = (t, ty, l, c)" by (cases r) auto
  obtain s1 cs1 where one: "run_listener l e s = (s1, cs1)" by (cases "run_listener l e s") auto
  obtain s2 cs2 where rest: "run_listeners rs e s1 = (s2, cs2)" by (cases "run_listeners rs e s1") auto
  have "fresh_calls s (s1, cs1)" using run_listener_fresh [of s l e] one by simp
  moreover have "fresh_calls s1 (s2, cs2)" using Cons.IH [of s1] rest by simp
  ultimately have "fresh_calls s (s2, cs1 @ cs2)" by (rule fresh_calls_trans)
  then show ?case using r one rest Cons.IH [of s] by simp
qed

lemma startFetch_update_counter: "keypressCounter s \<le> keypressCounter (startFetch_update n t r s)"
  by (simp add: startFetch_update_def update_fields split: option.splits)

lemma log_inv_extend:
  assumes "log_inv (p, log)" and "fresh_calls (widget p) (s', cs)"
  shows "log_inv (p\<lparr>widget := s'\<rparr>, log @ cs)"
  using assms by (fastforce simp: log_inv_def fresh_calls_def sorted_wrt_append)

lemma log_inv_step: "log_inv st \<Longrightarrow> log_inv (step a st)"
proof -
  assume inv: "log_inv st"
  obtain p log where st: "st = (p, log)" by (cases st) auto
  show ?thesis
  proof (cases a)
    case (SetInput v pos)
    with inv st show ?thesis by (simp add: log_inv_def)
  next
    case (Dispatch e)
    obtain s' cs where r: "run_listeners (listeners p) e (widget p) = (s', cs)"
      by (cases "run_listeners (listeners p) e (widget p)") auto
    have "fresh_calls (widget p) (s', cs)" using run_listeners_fresh [of "widget p" "listeners p" e] r by simp
    with inv st have "log_inv (p\<lparr>widget := s'\<rparr>, log @ cs)" by (intro log_inv_extend) simp_all
    with Dispatch st r show ?thesis by (simp add: dispatchEvent_def)
  next
    case (BlurTimer b)
    have "fresh_calls (widget p) (blurTimeout b (widget p), [])"
      by (simp add: blurTimeout_def fresh_calls_quiet)
    with inv st have "log_inv (p\<lparr>widget := blurTimeout b (widget p)\<rparr>, log @ [])" by (intro log_inv_extend) simp_all
    with BlurTimer st show ?thesis by simp
  next
    case (Click item)
    have "fresh_calls (widget p) (clear (widget p), [OnSelect item])"
      by (simp add: fresh_calls_quiet)
    with inv st have "log_inv (p\<lparr>widget := clear (widget p)\<rparr>, log @ [OnSelect item])" by (intro log_inv_extend) simp_all
    with Click st inv show ?thesis by (simp add: clickHandler_def)
  next
    case (Completion k r)
    have "fresh_calls (widget p) (complete (log ! k) r (widget p), [])"
      by (cases "log ! k") (simp_all add: complete_def fresh_calls_quiet startFetch_update_counter)
    with inv st have "log_inv (p\<lparr>widget := complete (log ! k) r (widget p)\<rparr>, log @ [])" by (intro log_inv_extend) simp_all
    with Completion st inv show ?thesis by simp
  next
    case Destroy
    with inv st show ?thesis by (fastforce simp: log_inv_def destroy_def)
  qed
qed

lemma log_inv_run: "log_inv st \<Longrightarrow> log_inv (run acts st)"
  by (induction acts arbitrary: st) (simp_all add: log_inv_step)

lemma fetch_epochs_mem: "i < length log \<Longrightarrow> log ! i = Fetch t n f c \<Longrightarrow> n \<in> set (fetch_epochs log)"
proof (induction log arbitrary: i rule: fetch_epochs.induct)
  case 1
  then show ?case by simp
next
  case (2 t' n' f' c' cs)
  then show ?case by (cases i) auto
next
  case (3 it cs)
  then show ?case by (cases i) auto
qed

lemma fetch_epochs_increasing:
  "sorted_wrt (<) (fetch_epochs log) \<Longrightarrow> k < j \<Longrightarrow> j < length log \<Longrightarrow>
   log ! k = Fetch t n f c \<Longrightarrow> log ! j = Fetch t' n' f' c' \<Longrightarrow> n < n'"
proof (induction log arbitrary: k j rule: fetch_epochs.induct)
  case 1
  then show ?case by simp
next
  case (2 t0 n0 f0 c0 cs)
  obtain j' where j: "j = Suc j'" using "2.prems" by (cases j) auto
  show ?case
  proof (cases k)
    case 0
    with "2.prems" j have "n' \<in> set (fetch_epochs cs)" "n = n0"
      by (auto intro: fetch_epochs_mem)
    with "2.prems" show ?thesis by auto
  next
    case (Suc k')
    with "2.prems" j show ?thesis by (intro "2.IH" [of k' j']) auto
  qed
next
  case (3 it cs)
  obtain j' where j: "j = Suc j'" using "3.prems" by (cases j) auto
  show ?case
  proof (cases k)
    case 0
    with "3.prems" show ?thesis by simp
  next
    case (Suc k')
    with "3.prems" j show ?thesis by (intro "3.IH" [of k' j']) auto
  qed
qed

lemma startFetch_update_noop:
  "keypressCounter s \<noteq> saved \<or> r = None \<Longrightarrow> startFetch_update saved txt r s = s"
  by (auto simp: startFetch_update_def split: option.splits)

lemma constructor_listeners:
  "listeners (constructor st) =
     [(InputElement, ''keydown'', Arrow KeydownHandler, False),
      (InputElement, ''keyup'', Arrow KeyupHandler, False),
      (InputElement, ''blur'', Arrow BlurHandler, False),
      (InputElement, ''focus'', Arrow FocusHandler, False),
      (WindowObject, ''resize'', Arrow ResizeHandler, False),
      (DocumentObject, ''scroll'', Arrow ScrollHandler, True)]"
  by (simp add: constructor_def addEventListener_def)

lemma destroy_listeners: "listeners (destroy (constructor st)) = listeners (constructor st)"
  by (simp add: destroy_def constructor_listeners removeEventListener_def)

lemma dispatch_KeyUp:
  "listeners p = listeners (constructor st) \<Longrightarrow>
   dispatchEvent (KeyUp key) p =
     (p\<lparr>widget := fst (keyupEventHandler key (widget p))\<rparr>, snd (keyupEventHandler key (widget p)))"
  by (simp add: dispatchEvent_def constructor_listeners split: prod.splits)

lemma ex_run:
  "run ex_acts (constructor ex_settings, []) =
     ((constructor ex_settings)\<lparr>widget := ex_widget\<lparr>input_value := ''abc'', input_selectionStart := Some 3, keypressCounter := 2\<rparr>\<rparr>,
      [Fetch ''ab'' 1 False 2, Fetch ''abc'' 2 False 3])"
  by (simp add: ex_acts_def dispatch_KeyUp [of _ ex_settings] keyupEventHandler_def startFetch_def Let_def
      ex_widget_def containerDisplayed_def)
     (simp add: constructor_def ex_settings_def)

lemma ex_typed_eq:
  "ex_typed = ex_widget\<lparr>input_value := ''abc'', input_selectionStart := Some 3, keypressCounter := 2\<rparr>"
  by (simp add: ex_typed_def ex_run)

text \<open>
  C1. A completion whose saved counter is not the counter of the widget, and a completion
  that passes \<^verbatim>\<open>false\<close>, leave the whole state of the widget as it is. A completion whose
  saved counter is the counter of the widget, passing an array (an empty array is an
  array, not the sentinel \<^verbatim>\<open>false\<close>), installs the array as
  \<^verbatim>\<open>items\<close>, the captured text as \<^verbatim>\<open>inputValue\<close> and the first item (or none) as \<^verbatim>\<open>selected\<close>,
  and calls \<^verbatim>\<open>update\<close>. And in every history that starts with no call made, whatever is
  dispatched, typed, clicked, completed or destroyed: when the completion of the \<open>k\<close>-th
  call made so far would change the widget at all, it passes an array, the counter of
  the widget is still the value that call saved, and no \<^verbatim>\<open>fetch\<close> call was made after it:
  it is the completion of the latest \<^verbatim>\<open>startFetch\<close> that fetched.
\<close>

theorem stale_completions_dropped:
  "(keypressCounter s \<noteq> saved \<or> r = None \<longrightarrow> startFetch_update saved txt r s = s)
   \<and> (keypressCounter s = saved \<longrightarrow>
        startFetch_update saved txt (Some its) s =
          update (s\<lparr>items := its, inputValue := txt,
                    selected := (case its of [] \<Rightarrow> None | x # _ \<Rightarrow> Some x)\<rparr>))
   \<and> (run acts (p0, []) = (p, log) \<and> k < length log
        \<and> complete (log ! k) r (widget p) \<noteq> widget p \<longrightarrow>
        r \<noteq> None
        \<and> (\<exists>t f c. log ! k = Fetch t (keypressCounter (widget p)) f c)
        \<and> (\<forall>j. k < j \<and> j < length log \<longrightarrow> (\<forall>t n f c. log ! j \<noteq> Fetch t n f c)))"
proof (intro conjI impI)
  show "keypressCounter s \<noteq> saved \<or> r = None \<Longrightarrow> startFetch_update saved txt r s = s"
    by (rule startFetch_update_noop)
next
  show "keypressCounter s = saved \<Longrightarrow>
        startFetch_update saved txt (Some its) s =
          update (s\<lparr>items := its, inputValue := txt,
                    selected := (case its of [] \<Rightarrow> None | x # _ \<Rightarrow> Some x)\<rparr>)"
    by (cases its) (simp_all add: startFetch_update_def item_at_def)
next
  assume a: "run acts (p0, []) = (p, log) \<and> k < length log
        \<and> complete (log ! k) r (widget p) \<noteq> widget p"
  have "log_inv (p0, [])" by (simp add: log_inv_def)
  then have "log_inv (run acts (p0, []))" by (rule log_inv_run)
  with a have inv: "log_inv (p, log)" by simp
  from a obtain t n f c where lk: "log ! k = Fetch t n f c"
    by (cases "log ! k") (auto simp: complete_def)
  with a have ch: "startFetch_update n t r (widget p) \<noteq> widget p" by (simp add: complete_def)
  then have "\<not> (keypressCounter (widget p) \<noteq> n \<or> r = None)"
    using startFetch_update_noop [of "widget p" n r t] by blast
  then have eq: "keypressCounter (widget p) = n" and r: "r \<noteq> None"
    by blast+
  show "r \<noteq> None" by (rule r)
  show "\<exists>t f c. log ! k = Fetch t (keypressCounter (widget p)) f c" using lk eq by auto
  show "\<forall>j. k < j \<and> j < length log \<longrightarrow> (\<forall>t n f c. log ! j \<noteq> Fetch t n f c)"
  proof (intro allI impI notI)
    fix j t' n' f' c'
    assume j: "k < j \<and> j < length log" and lj: "log ! j = Fetch t' n' f' c'"
    from inv have sorted: "sorted_wrt (<) (fetch_epochs log)" by (simp add: log_inv_def)
    from j lk lj have "n < n'" by (intro fetch_epochs_increasing [OF sorted, of k j t n f c t' n' f' c']) auto
    moreover from j lj have "n' \<in> set (fetch_epochs log)" by (intro fetch_epochs_mem) auto
    with inv have "n' \<le> keypressCounter (widget p)" by (simp add: log_inv_def)
    ultimately show False using eq by simp
  qed
qed

theorem stale_completions_dropped_witness:
  "keypressCounter ex_typed \<noteq> 1
   \<and> startFetch_update 1 ''ab'' (Some [ex_a]) ex_typed = ex_typed
   \<and> run ex_acts (constructor ex_settings, [])
       = ((constructor ex_settings)\<lparr>widget := ex_typed\<rparr>, [Fetch ''ab'' 1 False 2, Fetch ''abc'' 2 False 3])
   \<and> complete (Fetch ''abc'' 2 False 3) (Some [ex_b]) ex_typed \<noteq> ex_typed
   \<and> items (complete (Fetch ''abc'' 2 False 3) (Some [ex_b]) ex_typed) = [ex_b]
   \<and> keypressCounter ex_typed = 2"
proof -
  let ?P = "(constructor ex_settings)\<lparr>widget := ex_typed\<rparr>"
  let ?L = "[Fetch ''ab'' 1 False 2, Fetch ''abc'' 2 False 3]"
  note T1 = stale_completions_dropped [of ex_typed 1 "Some [ex_a]" "''ab''" "[ex_a]" ex_acts
      "constructor ex_settings" ?P ?L 1]
  note T = stale_completions_dropped [of ex_typed 1 "Some [ex_b]" "''ab''" "[ex_a]" ex_acts
      "constructor ex_settings" ?P ?L 1]
  have h1: "keypressCounter ex_typed \<noteq> 1" by (simp add: ex_typed_eq)
  have h2: "run ex_acts (constructor ex_settings, []) = (?P, ?L)" by (simp add: ex_run ex_typed_eq)
  have its: "items (complete (Fetch ''abc'' 2 False 3) (Some [ex_b]) ex_typed) = [ex_b]"
    by (simp add: complete_def startFetch_update_def ex_typed_eq update_fields)
  have "items ex_typed = []" by (simp add: ex_typed_eq ex_widget_simps)
  with its have h3: "complete (Fetch ''abc'' 2 False 3) (Some [ex_b]) ex_typed \<noteq> ex_typed"
    by auto
  from T1 h1 have c1: "startFetch_update 1 ''ab'' (Some [ex_a]) ex_typed = ex_typed" by blast
  from h3 have "run ex_acts (constructor ex_settings, []) = (?P, ?L) \<and> 1 < length ?L
      \<and> complete (?L ! 1) (Some [ex_b]) (widget ?P) \<noteq> widget ?P"
    using h2 by simp
  with T have "\<exists>t f c. ?L ! 1 = Fetch t (keypressCounter (widget ?P)) f c" by blast
  then have c3: "keypressCounter ex_typed = 2" by simp
  from h1 c1 h2 h3 its c3 show ?thesis by blast
qed

text \<open>
  C7. \<^verbatim>\<open>startFetch\<close> calls \<^verbatim>\<open>fetch\<close>, once, with the text of the input, exactly when it is
  triggered by focus or the text is at least \<^verbatim>\<open>minLen\<close> long; it then only increments the
  counter. Otherwise it makes no call and clears the state at once: no items, no input
  value, no selection, the overlay detached. \<^verbatim>\<open>minLen\<close> is 2 when the settings give no
  \<^verbatim>\<open>minLength\<close>.
\<close>

theorem startFetch_gate:
  "snd (startFetch isFocus s) =
     (if isFocus \<or> minLen s \<le> int (length (input_value s))
      then [Fetch (input_value s) (keypressCounter s + 1) isFocus
              (case input_selectionStart s of None \<Rightarrow> 0 | Some n \<Rightarrow> n)]
      else [])
   \<and> (isFocus \<or> minLen s \<le> int (length (input_value s)) \<longrightarrow>
        fst (startFetch isFocus s) = s\<lparr>keypressCounter := keypressCounter s + 1\<rparr>)
   \<and> (\<not> (isFocus \<or> minLen s \<le> int (length (input_value s))) \<longrightarrow>
        fst (startFetch isFocus s) =
          s\<lparr>keypressCounter := keypressCounter s + 2, items := [], inputValue := [],
            selected := None, container_attached := False\<rparr>)
   \<and> (cfg_minLength st = None \<longrightarrow> minLen (widget (constructor st)) = 2)"
  by (auto simp: startFetch_def Let_def clear_def detach_def constructor_def)

theorem startFetch_gate_witness:
  "snd (startFetch False ex_widget) = [Fetch ''ab'' 1 False 2]
   \<and> \<not> (False \<or> minLen ex_shown \<le> int (length (input_value ex_shown)))
   \<and> container_attached ex_shown
   \<and> snd (startFetch False ex_shown) = []
   \<and> \<not> container_attached (fst (startFetch False ex_shown))
   \<and> items (fst (startFetch False ex_shown)) = []
   \<and> snd (startFetch True ex_shown) = [Fetch ''a'' 1 True 2]
   \<and> cfg_minLength ex_settings = None"
  using startFetch_gate [of False ex_widget ex_settings] startFetch_gate [of False ex_shown ex_settings]
    startFetch_gate [of True ex_shown ex_settings]
  by (simp add: ex_shown_def ex_open_def ex_widget_def constructor_def ex_settings_def)

text \<open>
  C2 does not hold of the code. \<^verbatim>\<open>destroy\<close> passes the methods of the widget to
  \<^verbatim>\<open>removeEventListener\<close>, but the constructor registered arrow functions that wrap them,
  which are other function objects: no registration is removed. After \<^verbatim>\<open>destroy\<close> a key
  released in the input still calls \<^verbatim>\<open>fetch\<close>, and the completion of that call attaches the
  overlay again.
\<close>

theorem destroy_keeps_listeners:
  "listeners (destroy (constructor st)) = listeners (constructor st)
   \<and> snd (dispatchEvent (KeyUp ''b'') (destroy (constructor ex_settings))) = [Fetch ''ab'' 2 False 2]
   \<and> container_attached (widget (fst (run [Destroy, Dispatch (KeyUp ''b''), Completion 0 (Some [ex_a])]
        (constructor ex_settings, []))))"
proof (intro conjI)
  show "listeners (destroy (constructor st)) = listeners (constructor st)"
    by (rule destroy_listeners)
  have d: "dispatchEvent (KeyUp ''b'') (destroy (constructor ex_settings)) =
     ((destroy (constructor ex_settings))\<lparr>widget := ex_widget\<lparr>keypressCounter := 2\<rparr>\<rparr>, [Fetch ''ab'' 2 False 2])"
    by (simp add: dispatch_KeyUp [OF destroy_listeners] keyupEventHandler_def startFetch_def Let_def
      containerDisplayed_def)
       (simp add: destroy_def clear_def detach_def constructor_def ex_settings_def ex_widget_def)
  then show "snd (dispatchEvent (KeyUp ''b'') (destroy (constructor ex_settings))) = [Fetch ''ab'' 2 False 2]"
    by simp
  show "container_attached (widget (fst (run [Destroy, Dispatch (KeyUp ''b''), Completion 0 (Some [ex_a])]
        (constructor ex_settings, []))))"
    by (simp add: d complete_def startFetch_update_def update_def Let_def attach_def ex_widget_simps)
qed

section \<open>The invariant of the selection\<close>

lemma selected_in_items_iff:
  "selected_in_items s \<longleftrightarrow> (\<forall>x. selected s = Some x \<longrightarrow> x \<in> set (items s))"
  by (simp add: selected_in_items_def split: option.splits)

lemma update_inv: "selected_in_items s \<Longrightarrow> selected_in_items (update s)"
  by (auto simp: selected_in_items_iff update_fields)

lemma clear_inv: "selected_in_items (clear s)"
  by (simp add: selected_in_items_iff)

lemma selectNext_inv: "selected_in_items s \<Longrightarrow> selected_in_items (selectNext s)"
proof (cases "items s = []")
  case True
  then show ?thesis by (simp add: selectNext_def Let_def selected_in_items_iff)
next
  case False
  assume inv: "selected_in_items s"
  from False have at0: "item_at (items s) 0 = Some (hd (items s))" by (simp add: item_at_0)
  show ?thesis
  proof (cases "selected s = None \<or> selected s = item_at (items s) (int (length (items s)) - 1)")
    case True
    with False at0 show ?thesis by (simp add: selectNext_def Let_def selected_in_items_iff)
  next
    case c: False
    with False have "selected (selectNext s) = selectNext_loop (items s) (selected s) 0"
      by (auto simp: selectNext_def Let_def)
    with selectNext_loop_mem [of "items s" "selected s" 0] inv show ?thesis
      by (auto simp: selected_in_items_iff)
  qed
qed

lemma selectPrev_inv: "selected_in_items s \<Longrightarrow> selected_in_items (selectPrev s)"
proof (cases "items s = []")
  case True
  then show ?thesis by (simp add: selectPrev_def selected_in_items_iff)
next
  case False
  assume inv: "selected_in_items s"
  show ?thesis
  proof (cases "selected s = item_at (items s) 0")
    case True
    with False show ?thesis by (simp add: selectPrev_def selected_in_items_iff item_at_last)
  next
    case c: False
    with False have "selected (selectPrev s) = selectPrev_loop (items s) (selected s) (length (items s) - 1)"
      by (simp add: selectPrev_def)
    moreover from False have "length (items s) - 1 < length (items s)" by simp
    ultimately show ?thesis using selectPrev_loop_mem [of "length (items s) - 1" "items s" "selected s"] inv
      by (auto simp: selected_in_items_iff)
  qed
qed

lemma startFetch_update_inv:
  assumes "selected_in_items s"
  shows "selected_in_items (startFetch_update saved txt r s)"
proof (cases r)
  case None
  with assms show ?thesis by (simp add: startFetch_update_def)
next
  case (Some its)
  have "selected_in_items (s\<lparr>items := its, inputValue := txt,
          selected := (if length its < 1 then None else item_at its 0)\<rparr>)"
    by (simp add: selected_in_items_iff item_at_0)
  then have "selected_in_items (update (s\<lparr>items := its, inputValue := txt,
          selected := (if length its < 1 then None else item_at its 0)\<rparr>))"
    by (rule update_inv)
  with Some assms show ?thesis by (simp add: startFetch_update_def)
qed

lemma startFetch_inv: "selected_in_items s \<Longrightarrow> selected_in_items (fst (startFetch isFocus s))"
  by (simp add: startFetch_def Let_def selected_in_items_iff)

lemma run_handler_inv: "selected_in_items s \<Longrightarrow> selected_in_items (fst (run_handler h e s))"
  by (cases h; cases e)
     (auto simp: keyupEventHandler_def keydownEventHandler_def focusEventHandler_def
        resizeEventHandler_def scrollEventHandler_def updateIfDisplayed_def
        startFetch_inv clear_inv update_inv selectNext_inv selectPrev_inv split: option.splits)

lemma run_listeners_inv: "selected_in_items s \<Longrightarrow> selected_in_items (fst (run_listeners rs e s))"
proof (induction rs arbitrary: s)
  case Nil
  then show ?case by simp
next
  case (Cons r rs)
  obtain t ty l c where r: "r = (t, ty, l, c)" by (cases r) auto
  have "selected_in_items (fst (run_listener l e s))"
    using Cons.prems run_handler_inv by (cases l) simp_all
  then have "selected_in_items (fst (run_listeners rs e (fst (run_listener l e s))))"
    by (rule Cons.IH)
  with Cons r show ?case by (simp add: split_def)
qed

lemma step_inv: "selected_in_items (widget (fst st)) \<Longrightarrow> selected_in_items (widget (fst (step a st)))"
proof -
  assume inv: "selected_in_items (widget (fst st))"
  obtain p log where st: "st = (p, log)" by (cases st) auto
  show ?thesis
  proof (cases a)
    case (SetInput v pos)
    with inv st show ?thesis by (simp add: selected_in_items_iff)
  next
    case (Dispatch e)
    with inv st run_listeners_inv [of "widget p" "listeners p" e] show ?thesis
      by (simp add: dispatchEvent_def split_def)
  next
    case (BlurTimer b)
    with inv st show ?thesis by (simp add: blurTimeout_def clear_inv)
  next
    case (Click item)
    with inv st show ?thesis by (simp add: clickHandler_def clear_inv)
  next
    case (Completion k r)
    with inv st show ?thesis
      by (cases "log ! k") (simp_all add: complete_def startFetch_update_inv)
  next
    case Destroy
    with st show ?thesis by (simp add: destroy_def clear_inv)
  qed
qed

lemma run_inv: "selected_in_items (widget (fst st)) \<Longrightarrow> selected_in_items (widget (fst (run acts st)))"
  by (induction acts arbitrary: st) (simp_all add: step_inv)

text \<open>
  C8. \<^verbatim>\<open>clear\<close> establishes, and \<^verbatim>\<open>selectNext\<close>, \<^verbatim>\<open>selectPrev\<close> and the result callback of a
  \<^verbatim>\<open>fetch\<close> preserve, that \<^verbatim>\<open>selected\<close>, when defined, is one of the objects in \<^verbatim>\<open>items\<close>. So
  does every step of a history, and so the invariant holds after every history of a
  newly constructed widget.
\<close>

theorem selected_stays_in_items:
  "selected_in_items (clear s)
   \<and> (selected_in_items s \<longrightarrow>
        selected_in_items (selectNext s) \<and> selected_in_items (selectPrev s)
        \<and> selected_in_items (startFetch_update saved txt r s))
   \<and> (selected_in_items (widget p) \<longrightarrow> selected_in_items (widget (fst (step a (p, log)))))
   \<and> selected_in_items (widget (fst (run acts (constructor st, []))))"
proof (intro conjI impI)
  show "selected_in_items (clear s)" by (rule clear_inv)
  show "selected_in_items s \<Longrightarrow> selected_in_items (selectNext s)" by (rule selectNext_inv)
  show "selected_in_items s \<Longrightarrow> selected_in_items (selectPrev s)" by (rule selectPrev_inv)
  show "selected_in_items s \<Longrightarrow> selected_in_items (startFetch_update saved txt r s)"
    by (rule startFetch_update_inv)
  show "selected_in_items (widget p) \<Longrightarrow> selected_in_items (widget (fst (step a (p, log))))"
    using step_inv [of "(p, log)" a] by simp
  have "selected_in_items (widget (fst (constructor st, [])))"
    by (simp add: selected_in_items_iff constructor_def)
  then show "selected_in_items (widget (fst (run acts (constructor st, []))))"
    by (rule run_inv)
qed

theorem selected_stays_in_items_witness:
  "selected_in_items (ex_open (Some ex_c))
   \<and> selected_in_items (selectNext (ex_open (Some ex_c)))
   \<and> selected_in_items (selectPrev (ex_open (Some ex_c)))
   \<and> selected_in_items (startFetch_update 0 ''ab'' (Some [ex_plain]) (ex_open (Some ex_c)))
   \<and> selected_in_items (widget (constructor ex_settings))
   \<and> selected_in_items (widget (fst (step (Dispatch (KeyDown ''ArrowUp'')) (constructor ex_settings, []))))"
  using selected_stays_in_items [of "ex_open (Some ex_c)" 0 "''ab''" "Some [ex_plain]"
     "constructor ex_settings" "Dispatch (KeyDown ''ArrowUp'')" "[]" "[]" ex_settings]
  by (simp add: selected_in_items_iff ex_open_simps)


end
